theory Spec2Isabelle
  imports Main "HOL-Library.AList" "HOL-Library.Sublist"
begin

section \<open>Python values, dicts and the two containers\<close>

text \<open>
  The library is dynamically typed: a dict value is \<^verbatim>\<open>Any\<close>. The values the
  modules handle are \<^verbatim>\<open>None\<close>, numbers, strings, dicts, and instances of the
  two containers \<^verbatim>\<open>Maybe\<close> and \<^verbatim>\<open>Either\<close>.

  \<^verbatim>\<open>either.py\<close> and \<^verbatim>\<open>maybe.py\<close> are imported by \<^verbatim>\<open>dict.py\<close>
  but are not among the sources; the two classes and the methods \<^verbatim>\<open>dict.py\<close>
  and \<^verbatim>\<open>do.py\<close> call are modelled from sections 3, 4.1 and 4.2 of the
  specification.
\<close>

text \<open>Modelled from the spec: the class Maybe of maybe.py (spec 3, Optional: Present | Absent),
  with the constructor names the doctests of dict.py and do.py print.\<close>

datatype 'a maybe = Some' 'a | Nothing

text \<open>Modelled from the spec: the class Either of either.py (spec 3: Left | Right).\<close>

datatype ('l, 'r) either = Left 'l | Right 'r

datatype 'k pyval =
    PNone
  | PInt int
  | PStr string
  | PDict "('k \<times> 'k pyval) list"
  | PMaybe "'k pyval maybe"
  | PEither "('k pyval, 'k pyval) either"

text \<open>
  The exceptions that occur: the two that \<^verbatim>\<open>do.py\<close> catches
  (\<^verbatim>\<open>ReturnMonadic\<close> is its own class), the two the built-ins raise here, and
  any other exception a program may raise.
\<close>

datatype 'k exn =
    StopIteration "'k pyval"
  | ReturnMonadic "'k pyval"
  | AttributeError
  | ValueError
  | OtherException string

text \<open>
  A dict is the list of its items in iteration (insertion) order. A Python dict has
  unique keys: \<open>distinct (map fst d)\<close>. A set of keys is the list of its
  elements in the set's iteration order, without repetition.
\<close>

type_synonym ('k, 'v) dict = "('k \<times> 'v) list"

text \<open>\<^verbatim>\<open>d.get(k)\<close>, \<^verbatim>\<open>k in d\<close>, \<^verbatim>\<open>d[k]\<close>.\<close>

definition dict_get :: "('k, 'v) dict \<Rightarrow> 'k \<Rightarrow> 'v option" where
  "dict_get d k = map_of d k"

text \<open>
  Storing an item, as a dict display, a comprehension and \<^verbatim>\<open>dict(pairs)\<close> do for
  each item from left to right: a key already there keeps its position and takes the
  new value, a new key goes to the end. This is \<^const>\<open>AList.update\<close>.
\<close>

definition dict_of_items :: "('k \<times> 'v) list \<Rightarrow> ('k, 'v) dict" where
  "dict_of_items xs = foldl (\<lambda>d (k, v). AList.update k v d) [] xs"

subsection \<open>The methods of Maybe and Either that dict.py calls\<close>

text \<open>Modelled from the spec: Maybe.of of maybe.py (spec 4.1: Present(value) unless value
  is the absent sentinel None, then Absent).\<close>

definition maybe_of :: "'k pyval \<Rightarrow> 'k pyval maybe" where
  "maybe_of v = (if v = PNone then Nothing else Some' v)"

text \<open>Modelled from the spec: Maybe.maybe of maybe.py (spec 4.1, mapOr(default, f): eliminates
  the container to a plain value).\<close>

definition maybe :: "'b \<Rightarrow> ('a \<Rightarrow> 'b) \<Rightarrow> 'a maybe \<Rightarrow> 'b" where
  "maybe dflt f m = (case m of Nothing \<Rightarrow> dflt | Some' v \<Rightarrow> f v)"

text \<open>Modelled from the spec: Either.map of either.py (spec 4.2: applies f to the Right payload
  only, Left unchanged).\<close>

definition either_map :: "('r \<Rightarrow> 'q) \<Rightarrow> ('l, 'r) either \<Rightarrow> ('l, 'q) either" where
  "either_map f e = (case e of Left l \<Rightarrow> Left l | Right r \<Rightarrow> Right (f r))"

text \<open>Modelled from the spec: Either.sequence of either.py (spec 4.2: items in order; the first
  Left is returned at once; if all are Right, Right of the payloads in input order).\<close>

fun sequence :: "('l, 'r) either list \<Rightarrow> ('l, 'r list) either" where
  "sequence [] = Right []"
| "sequence (Left l # es) = Left l"
| "sequence (Right r # es) = either_map (\<lambda>rs. r # rs) (sequence es)"

section \<open>dict.py\<close>

definition filterWithKey :: "('k \<Rightarrow> 'v \<Rightarrow> bool) \<Rightarrow> ('k, 'v) dict \<Rightarrow> ('k, 'v) dict" where
  "filterWithKey p d = dict_of_items [(k, v). (k, v) \<leftarrow> d, p k v]"

definition filterByKey :: "'k list \<Rightarrow> ('k, 'v) dict \<Rightarrow> ('k, 'v) dict" where
  "filterByKey ks d = filterWithKey (\<lambda>k v. k \<in> set ks) d"

definition lookup :: "'k \<Rightarrow> ('k, 'k pyval) dict \<Rightarrow> 'k pyval maybe" where
  "lookup k d = maybe_of (case dict_get d k of None \<Rightarrow> PNone | Some v \<Rightarrow> v)"

definition getByKeys ::
  "'k list \<Rightarrow> ('k, 'k pyval) dict \<Rightarrow> ('k, ('k, 'k pyval) dict) either" where
  "getByKeys ks d =
     (let get = (\<lambda>k. maybe (Left k) (\<lambda>v. Right (k, v)) (lookup k d))
      in either_map dict_of_items (sequence [get k. k \<leftarrow> ks]))"

definition delete :: "'k \<Rightarrow> ('k, 'v) dict \<Rightarrow> ('k, 'v) dict" where
  "delete key d = dict_of_items [(k, v). (k, v) \<leftarrow> d, k \<noteq> key]"

definition insert_dict :: "'k \<Rightarrow> 'v \<Rightarrow> ('k, 'v) dict \<Rightarrow> ('k, 'v) dict" where
  "insert_dict key val d = dict_of_items (d @ [(key, val)])"

definition merge :: "('k, 'v) dict \<Rightarrow> ('k, 'v) dict \<Rightarrow> ('k, 'v) dict" where
  "merge d1 = (\<lambda>d2. dict_of_items (d1 @ d2))"

text \<open>
  \<^verbatim>\<open>append\<close>: the comprehension \<^verbatim>\<open>d3\<close> runs over the items of
  \<^verbatim>\<open>d1\<close> and keeps those whose value and whose partner in \<^verbatim>\<open>d2\<close> are
  both dicts; the result is the display \<^verbatim>\<open>{**d1, **d2, **d3}\<close>.
\<close>

fun append_dict ::
  "('k, 'k pyval) dict \<Rightarrow> ('k, 'k pyval) dict \<Rightarrow> ('k, 'k pyval) dict" where
  "append_dict d1 d2 =
     (let d3 = dict_of_items
                 (concat (map (\<lambda>(k, v). case (v, dict_get d2 k) of
                                  (PDict a, Some (PDict b)) \<Rightarrow> [(k, PDict (append_dict a b))]
                                | _ \<Rightarrow> []) d1))
      in dict_of_items (d1 @ d2 @ d3))"

declare append_dict.simps [simp del]

text \<open>
  The same function with a budget on the depth of the recursion: \<open>None\<close> when a
  call would be nested deeper than the budget allows.
\<close>

fun append_fuel ::
  "nat \<Rightarrow> ('k, 'k pyval) dict \<Rightarrow> ('k, 'k pyval) dict \<Rightarrow> ('k, 'k pyval) dict option" where
  "append_fuel 0 d1 d2 = None"
| "append_fuel (Suc n) d1 d2 =
     (case those (map (\<lambda>(k, v). case (v, dict_get d2 k) of
                         (PDict a, Some (PDict b)) \<Rightarrow>
                            map_option (\<lambda>r. [(k, PDict r)]) (append_fuel n a b)
                       | _ \<Rightarrow> Some []) d1) of
        None \<Rightarrow> None
      | Some items \<Rightarrow> Some (dict_of_items (d1 @ d2 @ dict_of_items (concat items))))"

text \<open>The nesting depth of a dict: 1 for a dict none of whose values is a dict.\<close>

fun nesting_depth :: "('k, 'k pyval) dict \<Rightarrow> nat" where
  "nesting_depth d =
     Suc (foldr max (map (\<lambda>(k, v). case v of PDict a \<Rightarrow> nesting_depth a | _ \<Rightarrow> 0) d) 0)"

declare nesting_depth.simps [simp del]

subsection \<open>unflatten\<close>

text \<open>
  \<^verbatim>\<open>k.split(sep)\<close> of the Python built-in \<^verbatim>\<open>str\<close>: the occurrences of
  \<^verbatim>\<open>sep\<close> are found from the left and do not overlap; an empty separator raises
  \<^verbatim>\<open>ValueError\<close>.
\<close>

fun split_at :: "string \<Rightarrow> string \<Rightarrow> string list" where
  "split_at sep [] = [[]]"
| "split_at sep (c # s) =
     (if sep \<noteq> [] \<and> prefix sep (c # s)
      then [] # split_at sep (drop (length sep) (c # s))
      else (case split_at sep s of p # ps \<Rightarrow> (c # p) # ps | [] \<Rightarrow> [[c]]))"

definition split :: "string \<Rightarrow> string \<Rightarrow> 'k exn + string list" where
  "split s sep = (if sep = [] then Inl ValueError else Inr (split_at sep s))"

text \<open>\<^verbatim>\<open>h, *t = parts\<close> raises \<^verbatim>\<open>ValueError\<close> on an empty list.\<close>

fun unflatten1 :: "string list \<Rightarrow> string pyval \<Rightarrow> string exn + (string, string pyval) dict" where
  "unflatten1 [] val = Inl ValueError"
| "unflatten1 [h] val = Inr [(h, val)]"
| "unflatten1 (h # t) val =
     (case unflatten1 t val of Inl e \<Rightarrow> Inl e | Inr r \<Rightarrow> Inr [(h, PDict r)])"

text \<open>
  \<^verbatim>\<open>reduce(append, (... for (k, v) in d.items()), {})\<close>: the generator expression
  is consumed item by item, so the first item whose key cannot be split ends the loop
  with the exception.
\<close>

fun reduce_append ::
  "(string, string pyval) dict \<Rightarrow> (string, string pyval) dict \<Rightarrow> string \<Rightarrow>
   string exn + (string, string pyval) dict" where
  "reduce_append acc [] sep = Inr acc"
| "reduce_append acc ((k, v) # items) sep =
     (case split k sep of
        Inl e \<Rightarrow> Inl e
      | Inr parts \<Rightarrow>
          (case unflatten1 parts v of
             Inl e \<Rightarrow> Inl e
           | Inr u \<Rightarrow> reduce_append (append_dict acc u) items sep))"

definition unflatten ::
  "(string, string pyval) dict \<Rightarrow> string \<Rightarrow> string exn + (string, string pyval) dict" where
  "unflatten d sep = reduce_append [] d sep"

subsection \<open>The functions on dict objects\<close>

text \<open>
  A Python function receives a reference to a dict object. The store holds the dict
  objects, an address is an index into it. A dict display or comprehension creates a
  new object, at an address that was not in use. \<open>None\<close> stands for an address
  that holds no object, which a Python reference never is.
\<close>

type_synonym ('k, 'v) store = "('k, 'v) dict list"

definition new_dict :: "('k, 'v) dict \<Rightarrow> ('k, 'v) store \<Rightarrow> nat \<times> ('k, 'v) store" where
  "new_dict d h = (length h, h @ [d])"

definition filterWithKey_obj ::
  "('k \<Rightarrow> 'v \<Rightarrow> bool) \<Rightarrow> nat \<Rightarrow> ('k, 'v) store \<Rightarrow> (nat \<times> ('k, 'v) store) option" where
  "filterWithKey_obj p r h =
     (if r < length h then Some (new_dict (filterWithKey p (h ! r)) h) else None)"

definition delete_obj ::
  "'k \<Rightarrow> nat \<Rightarrow> ('k, 'v) store \<Rightarrow> (nat \<times> ('k, 'v) store) option" where
  "delete_obj key r h =
     (if r < length h then Some (new_dict (delete key (h ! r)) h) else None)"

definition insert_obj ::
  "'k \<Rightarrow> 'v \<Rightarrow> nat \<Rightarrow> ('k, 'v) store \<Rightarrow> (nat \<times> ('k, 'v) store) option" where
  "insert_obj key val r h =
     (if r < length h then Some (new_dict (insert_dict key val (h ! r)) h) else None)"

section \<open>do.py\<close>

text \<open>
  \<^verbatim>\<open>do(M)\<close> takes one of the two container classes.
\<close>

datatype monad_cls = Maybe | Either

text \<open>Modelled from the spec: M.unit of maybe.py and either.py (spec 4.3: the container's
  success constructor, Present or Right).\<close>

fun unit :: "monad_cls \<Rightarrow> 'k pyval \<Rightarrow> 'k pyval" where
  "unit Maybe v = PMaybe (Some' v)"
| "unit Either v = PEither (Right v)"

text \<open>
  A generator object has a state of its own; \<^verbatim>\<open>it.send(val)\<close> resumes it in that
  state with the value sent, and it runs up to its next \<^verbatim>\<open>yield\<close> (\<open>Inr\<close> of
  the value yielded) or until it raises (\<open>Inl\<close>: \<^verbatim>\<open>StopIteration\<close> with its
  return value when it ends, \<^verbatim>\<open>ReturnMonadic\<close> when it calls
  \<^verbatim>\<open>mreturn\<close>, or anything else). Whatever the program does besides is a change
  of this state.
\<close>

type_synonym ('k, 's) generator = "'s \<Rightarrow> 'k pyval \<Rightarrow> ('k exn + 'k pyval) \<times> 's"

text \<open>
  The function that \<^verbatim>\<open>do(M)\<close> decorates. \<^verbatim>\<open>run\<close> calls it first,
  \<^verbatim>\<open>it = f(*args, **kwargs)\<close>, outside the \<^verbatim>\<open>try\<close> of \<^verbatim>\<open>send\<close>. If
  its body has a \<^verbatim>\<open>yield\<close> it is a generator function, and the call creates a
  generator object in its initial state without running any of the body. If not, the
  call runs the whole body, which raises or returns a value that is no generator.
\<close>

datatype ('k, 's) called = Generator 's | Raises "'k exn" | Returns "'k pyval"

record ('a, 'k, 's) decorated =
  start :: "'a \<Rightarrow> ('k, 's) called"
  resume :: "('k, 's) generator"

definition mreturn :: "'k pyval \<Rightarrow> 'k exn + 'k pyval" where
  "mreturn v = Inl (ReturnMonadic v)"

text \<open>
  What a call that may resume the generator comes to: an exception or a value, and the
  generator's state after it; \<open>None\<close> when the recursion of \<^verbatim>\<open>send\<close> is
  deeper than the budget.
\<close>

type_synonym ('k, 's) outcome = "(('k exn + 'k pyval) \<times> 's) option"

text \<open>Modelled from the spec: flatmap of maybe.py and either.py (spec 4.1, 4.2: Present(v) gives
  f(v), Absent gives Absent; Right(r) gives f(r), Left is returned unchanged; f is not called on
  Absent or Left). The method is found on the object yielded; a value that is not a container
  has none.\<close>

definition flatmap ::
  "'k pyval \<Rightarrow> ('k pyval \<Rightarrow> 's \<Rightarrow> ('k, 's) outcome) \<Rightarrow> 's \<Rightarrow> ('k, 's) outcome" where
  "flatmap m f s =
     (case m of
        PMaybe (Some' v) \<Rightarrow> f v s
      | PMaybe Nothing \<Rightarrow> Some (Inr (PMaybe Nothing), s)
      | PEither (Right v) \<Rightarrow> f v s
      | PEither (Left l) \<Rightarrow> Some (Inr (PEither (Left l)), s)
      | _ \<Rightarrow> Some (Inl AttributeError, s))"

text \<open>
  \<^verbatim>\<open>send\<close>: the body of the \<^verbatim>\<open>try\<close> is
  \<^verbatim>\<open>it.send(val).flatmap(send)\<close>; the two handlers see whatever it raises.
\<close>

fun send ::
  "monad_cls \<Rightarrow> ('k, 's) generator \<Rightarrow> nat \<Rightarrow> 'k pyval \<Rightarrow> 's \<Rightarrow> ('k, 's) outcome" where
  "send M it 0 val s = None"
| "send M it (Suc n) val s =
     (case (case it s val of
              (Inl e, s1) \<Rightarrow> Some (Inl e, s1)
            | (Inr m, s1) \<Rightarrow> flatmap m (send M it n) s1) of
        None \<Rightarrow> None
      | Some (Inl (StopIteration v), s2) \<Rightarrow> Some (Inr v, s2)
      | Some (Inl (ReturnMonadic v), s2) \<Rightarrow> Some (Inr (unit M v), s2)
      | Some r \<Rightarrow> Some r)"

text \<open>
  \<^verbatim>\<open>do(M)(f)\<close> is \<^verbatim>\<open>run\<close>: it calls \<^verbatim>\<open>f\<close> and sends
  \<^verbatim>\<open>None\<close> to what the call returned. An exception of the call leaves
  \<^verbatim>\<open>run\<close> as it is; a value that is no generator has no \<^verbatim>\<open>send\<close>, and the
  \<^verbatim>\<open>AttributeError\<close> is none of the two that \<^verbatim>\<open>send\<close> handles. The result
  comes with the state of the generator after the run, if there is a generator.
\<close>

definition do ::
  "monad_cls \<Rightarrow> ('a, 'k, 's) decorated \<Rightarrow> nat \<Rightarrow> 'a \<Rightarrow>
   (('k exn + 'k pyval) \<times> 's option) option" where
  "do M f fuel args =
     (case start f args of
        Raises e \<Rightarrow> Some (Inl e, None)
      | Returns v \<Rightarrow> (if fuel = 0 then None else Some (Inl AttributeError, None))
      | Generator s \<Rightarrow>
          map_option (\<lambda>(r, s'). (r, Some s')) (send M (resume f) fuel PNone s))"

section \<open>Notions used to state the properties\<close>

subsection \<open>unflatten\<close>

text \<open>
  The singleton nested mapping that mirrors a path, with the value at its end, and the
  path segments put together again with the separator between them.
\<close>

fun path_dict :: "string list \<Rightarrow> string pyval \<Rightarrow> (string, string pyval) dict" where
  "path_dict [] val = []"
| "path_dict [h] val = [(h, val)]"
| "path_dict (h # t) val = [(h, PDict (path_dict t val))]"

fun join :: "string \<Rightarrow> string list \<Rightarrow> string" where
  "join sep [] = []"
| "join sep [p] = p"
| "join sep (p # ps) = p @ sep @ join sep ps"

text \<open>
  \<^verbatim>\<open>unflattenKeys\<close> in the words of the specification (4.4): an entry whose key
  contains the separator becomes the singleton nested mapping of its path segments, any
  other entry a top-level leaf; the singletons are folded with the deep merge from the
  empty mapping, in the order of the entries.
\<close>

definition unflattenKeys ::
  "(string, string pyval) dict \<Rightarrow> string \<Rightarrow> (string, string pyval) dict" where
  "unflattenKeys d sep =
     foldl append_dict []
       (map (\<lambda>(k, v). if sublist sep k then path_dict (split_at sep k) v else [(k, v)]) d)"

subsection \<open>do\<close>

text \<open>
  A container in its success state carries a payload, the value its step is resumed
  with; \<open>Nothing\<close> and \<open>Left\<close> are the short-circuit states.
\<close>

definition payload :: "'k pyval \<Rightarrow> 'k pyval option" where
  "payload m =
     (case m of PMaybe (Some' v) \<Rightarrow> Some v | PEither (Right v) \<Rightarrow> Some v | _ \<Rightarrow> None)"

definition short_circuit :: "'k pyval \<Rightarrow> bool" where
  "short_circuit m =
     (case m of PMaybe Nothing \<Rightarrow> True | PEither (Left l) \<Rightarrow> True | _ \<Rightarrow> False)"

text \<open>
  The course of a program: \<open>drive it n val s\<close> is what the generator does when it is
  resumed for the \<open>n + 1\<close>-th time, and its state then, provided each of the \<open>n\<close>
  resumptions before yielded a container in its success state and the next resumption
  sent that container's payload; \<open>None\<close> if the program does not get that far in this way.
\<close>

fun drive ::
  "('k, 's) generator \<Rightarrow> nat \<Rightarrow> 'k pyval \<Rightarrow> 's \<Rightarrow> (('k exn + 'k pyval) \<times> 's) option" where
  "drive it 0 val s = Some (it s val)"
| "drive it (Suc n) val s =
     (case it s val of
        (Inr m, s1) \<Rightarrow> (case payload m of Some x \<Rightarrow> drive it n x s1 | None \<Rightarrow> None)
      | (Inl e, s1) \<Rightarrow> None)"

text \<open>
  The same program with a side effect added to every step: a counter in its state that
  each resumption increments.
\<close>

definition counting :: "('a, 'k, 's) decorated \<Rightarrow> ('a, 'k, 's \<times> nat) decorated" where
  "counting f =
     \<lparr> start = (\<lambda>args. case start f args of
                  Generator s \<Rightarrow> Generator (s, 0)
                | Raises e \<Rightarrow> Raises e
                | Returns v \<Rightarrow> Returns v),
       resume = (\<lambda>(s, c) val. case resume f s val of (r, s') \<Rightarrow> (r, (s', Suc c))) \<rparr>"

subsection \<open>Programs to run\<close>

text \<open>
  Four programs for \<^verbatim>\<open>do\<close>. The state of a generator is its program counter and
  its variables; once it has ended, a generator raises \<^verbatim>\<open>StopIteration\<close> on
  every \<^verbatim>\<open>send\<close>.

  \<^verbatim>\<open>
  @do(Maybe)
  def both(m1, m2):
      a = yield m1
      b = yield m2
      mreturn({'fst': a, 'snd': b})
  \<close>
\<close>

definition both ::
  "(string pyval \<times> string pyval, string,
    nat \<times> string pyval \<times> string pyval \<times> string pyval) decorated" where
  "both =
     \<lparr> start = (\<lambda>(m1, m2). Generator (0, m1, m2, PNone)),
       resume = (\<lambda>(pc, m1, m2, a) val.
         if pc = 0 then (Inr m1, (1, m1, m2, a))
         else if pc = 1 then (Inr m2, (2, m1, m2, val))
         else if pc = 2 then
           (mreturn (PDict [(''fst'', a), (''snd'', val)]), (3, m1, m2, a))
         else (Inl (StopIteration PNone), (pc, m1, m2, a))) \<rparr>"

text \<open>
  A program that ends with a \<^verbatim>\<open>return\<close> statement:

  \<^verbatim>\<open>
  @do(Maybe)
  def wrapped(m):
      a = yield m
      return Maybe.Some({'got': a})
  \<close>
\<close>

definition wrapped :: "(string pyval, string, nat \<times> string pyval) decorated" where
  "wrapped =
     \<lparr> start = (\<lambda>m. Generator (0, m)),
       resume = (\<lambda>(pc, m) val.
         if pc = 0 then (Inr m, (1, m))
         else if pc = 1 then
           (Inl (StopIteration (PMaybe (Some' (PDict [(''got'', val)])))), (2, m))
         else (Inl (StopIteration PNone), (pc, m))) \<rparr>"

text \<open>
  A program that ends without one; the value of its \<^verbatim>\<open>StopIteration\<close> is
  \<^verbatim>\<open>None\<close>:

  \<^verbatim>\<open>
  @do(Maybe)
  def falls_off(m):
      a = yield m
  \<close>
\<close>

definition falls_off :: "(string pyval, string, nat \<times> string pyval) decorated" where
  "falls_off =
     \<lparr> start = (\<lambda>m. Generator (0, m)),
       resume = (\<lambda>(pc, m) val.
         if pc = 0 then (Inr m, (1, m))
         else (Inl (StopIteration PNone), (2, m))) \<rparr>"

text \<open>
  A function without \<^verbatim>\<open>yield\<close>: its call runs \<^verbatim>\<open>mreturn\<close>. There is no
  generator to resume.

  \<^verbatim>\<open>
  @do(Maybe)
  def plain(x):
      mreturn(x)
  \<close>
\<close>

definition plain :: "(string pyval, string, unit) decorated" where
  "plain =
     \<lparr> start = (\<lambda>x. case mreturn x of Inl e \<Rightarrow> Raises e | Inr v \<Rightarrow> Returns PNone),
       resume = (\<lambda>s val. (Inl (StopIteration PNone), s)) \<rparr>"

section \<open>Properties of dict.py\<close>

subsection \<open>Dict displays and comprehensions\<close>

lemma foldl_update_distinct:
  "distinct (map fst acc) \<Longrightarrow> distinct (map fst (foldl (\<lambda>d (k, v). AList.update k v d) acc xs))"
  by (induction xs arbitrary: acc) (auto simp: distinct_update)

lemma foldl_update_map_of:
  "map_of (foldl (\<lambda>d (k, v). AList.update k v d) acc xs) = map_of acc ++ map_of (rev xs)"
  by (induction xs arbitrary: acc) (auto simp: update_conv' map_add_def fun_eq_iff split: option.splits)

lemma update_fresh: "k \<notin> fst ` set acc \<Longrightarrow> AList.update k v acc = acc @ [(k, v)]"
  by (induction acc) auto

lemma foldl_update_fresh:
  "distinct (map fst xs) \<Longrightarrow> fst ` set xs \<inter> fst ` set acc = {} \<Longrightarrow>
   foldl (\<lambda>d (k, v). AList.update k v d) acc xs = acc @ xs"
  by (induction xs arbitrary: acc) (auto simp: update_fresh)

lemma dict_of_items_distinct: "distinct (map fst (dict_of_items xs))"
  by (simp add: dict_of_items_def foldl_update_distinct)

lemma dict_of_items_map_of: "map_of (dict_of_items xs) = map_of (rev xs)"
  by (simp add: dict_of_items_def foldl_update_map_of)

lemma dict_of_items_id: "distinct (map fst xs) \<Longrightarrow> dict_of_items xs = xs"
  by (simp add: dict_of_items_def foldl_update_fresh)

subsection \<open>filterWithKey, filterByKey, delete, insert\<close>

lemma comprehension_filter:
  "[(k, v). (k, v) \<leftarrow> d, p k v] = filter (\<lambda>(k, v). p k v) d"
  by (induction d) auto

lemma filterWithKey_filter:
  "distinct (map fst d) \<Longrightarrow> filterWithKey p d = filter (\<lambda>(k, v). p k v) d"
  unfolding filterWithKey_def comprehension_filter
  by (rule dict_of_items_id) (simp add: distinct_map_filter)

lemma delete_filter:
  "distinct (map fst d) \<Longrightarrow> delete key d = filter (\<lambda>(k, v). k \<noteq> key) d"
  unfolding delete_def comprehension_filter
  by (rule dict_of_items_id) (simp add: distinct_map_filter)

text \<open>
  C8. For a dict \<open>d\<close> (its keys distinct) and a predicate \<open>p\<close>,
  \<open>filterWithKey p d\<close> has exactly the items of \<open>d\<close> for which \<open>p key value\<close> holds;
  \<open>filterByKey ks d\<close> is \<open>filterWithKey\<close> with the predicate "the key is in \<open>ks\<close>" and so
  has exactly the items whose key is in \<open>ks\<close>. On dict objects, the result is a new
  object, the argument object is unchanged, and so is every other object of the store.
\<close>

theorem filterWithKey_exact:
  assumes "distinct (map fst d)"
  shows "set (filterWithKey p d) = {(k, v). (k, v) \<in> set d \<and> p k v}
       \<and> distinct (map fst (filterWithKey p d))
       \<and> filterByKey ks d = filterWithKey (\<lambda>k v. k \<in> set ks) d
       \<and> set (filterByKey ks d) = {(k, v). (k, v) \<in> set d \<and> k \<in> set ks}
       \<and> (r < length h \<and> h ! r = d \<longrightarrow>
            (\<exists>h'. filterWithKey_obj p r h = Some (length h, h')
               \<and> length h \<noteq> r \<and> take (length h) h' = h \<and> h' ! r = d
               \<and> h' ! length h = filterWithKey p d))"
proof -
  have 1: "set (filterWithKey p d) = {(k, v). (k, v) \<in> set d \<and> p k v}" for p :: "'a \<Rightarrow> 'b \<Rightarrow> bool"
    using assms by (auto simp: filterWithKey_filter)
  have 2: "distinct (map fst (filterWithKey p d))"
    by (simp add: filterWithKey_def dict_of_items_distinct)
  have 3: "filterByKey ks d = filterWithKey (\<lambda>k v. k \<in> set ks) d"
    by (simp add: filterByKey_def)
  have 4: "set (filterByKey ks d) = {(k, v). (k, v) \<in> set d \<and> k \<in> set ks}"
    unfolding 3 by (rule 1)
  have 5: "r < length h \<and> h ! r = d \<longrightarrow>
            (\<exists>h'. filterWithKey_obj p r h = Some (length h, h')
               \<and> length h \<noteq> r \<and> take (length h) h' = h \<and> h' ! r = d
               \<and> h' ! length h = filterWithKey p d)"
    by (auto simp: filterWithKey_obj_def new_dict_def nth_append)
  show ?thesis using 1 2 3 4 5 by blast
qed

text \<open>
  C9. For a dict \<open>d\<close> (its keys distinct), \<open>delete key d\<close> has exactly the items of
  \<open>d\<close> whose key differs from \<open>key\<close>, and \<open>insert_dict key val d\<close> maps \<open>key\<close> to
  \<open>val\<close> and agrees with \<open>d\<close> on every other key. On dict objects, each returns a new
  object and leaves the argument object, and every other object of the store, unchanged.
\<close>

theorem delete_insert_pure:
  assumes "distinct (map fst d)"
  shows "set (delete key d) = {(k, v). (k, v) \<in> set d \<and> k \<noteq> key}
       \<and> distinct (map fst (delete key d))
       \<and> dict_get (insert_dict key val d) = (dict_get d)(key \<mapsto> val)
       \<and> distinct (map fst (insert_dict key val d))
       \<and> (r < length h \<and> h ! r = d \<longrightarrow>
            (\<exists>h'. delete_obj key r h = Some (length h, h')
               \<and> length h \<noteq> r \<and> take (length h) h' = h \<and> h' ! r = d
               \<and> h' ! length h = delete key d)
          \<and> (\<exists>h'. insert_obj key val r h = Some (length h, h')
               \<and> length h \<noteq> r \<and> take (length h) h' = h \<and> h' ! r = d
               \<and> h' ! length h = insert_dict key val d))"
proof -
  have 1: "set (delete key d) = {(k, v). (k, v) \<in> set d \<and> k \<noteq> key}"
    using assms by (auto simp: delete_filter)
  have 2: "distinct (map fst (delete key d))"
    by (simp add: delete_def dict_of_items_distinct)
  have "map_of (rev d) = map_of d"
    using assms by (metis dict_of_items_id dict_of_items_map_of)
  then have 3: "dict_get (insert_dict key val d) = (dict_get d)(key \<mapsto> val)"
    by (simp add: dict_get_def insert_dict_def dict_of_items_map_of fun_eq_iff)
  have 4: "distinct (map fst (insert_dict key val d))"
    by (simp add: insert_dict_def dict_of_items_distinct)
  have 5: "r < length h \<and> h ! r = d \<longrightarrow>
            (\<exists>h'. delete_obj key r h = Some (length h, h')
               \<and> length h \<noteq> r \<and> take (length h) h' = h \<and> h' ! r = d
               \<and> h' ! length h = delete key d)
          \<and> (\<exists>h'. insert_obj key val r h = Some (length h, h')
               \<and> length h \<noteq> r \<and> take (length h) h' = h \<and> h' ! r = d
               \<and> h' ! length h = insert_dict key val d)"
    by (auto simp: delete_obj_def insert_obj_def new_dict_def nth_append)
  show ?thesis using 1 2 3 4 5 by blast
qed

theorem filterWithKey_exact_witness:
  "distinct (map fst [(''a'', 1::int), (''b'', 2)])
   \<and> set (filterWithKey (\<lambda>k v. k = ''a'') [(''a'', 1::int), (''b'', 2)])
       = {(k, v). (k, v) \<in> set [(''a'', 1), (''b'', 2)] \<and> k = ''a''}
   \<and> distinct (map fst (filterWithKey (\<lambda>k v. k = ''a'') [(''a'', 1::int), (''b'', 2)]))
   \<and> filterByKey [''a''] [(''a'', 1::int), (''b'', 2)]
       = filterWithKey (\<lambda>k v. k \<in> set [''a'']) [(''a'', 1), (''b'', 2)]
   \<and> set (filterByKey [''a''] [(''a'', 1::int), (''b'', 2)])
       = {(k, v). (k, v) \<in> set [(''a'', 1), (''b'', 2)] \<and> k \<in> set [''a'']}
   \<and> (0::nat) < length [[(''a'', 1::int), (''b'', 2)]]
   \<and> [[(''a'', 1::int), (''b'', 2)]] ! 0 = [(''a'', 1), (''b'', 2)]
   \<and> (\<exists>h'. filterWithKey_obj (\<lambda>k v. k = ''a'') 0 [[(''a'', 1::int), (''b'', 2)]]
              = Some (length [[(''a'', 1::int), (''b'', 2)]], h')
          \<and> length [[(''a'', 1::int), (''b'', 2)]] \<noteq> 0
          \<and> take (length [[(''a'', 1::int), (''b'', 2)]]) h' = [[(''a'', 1), (''b'', 2)]]
          \<and> h' ! 0 = [(''a'', 1), (''b'', 2)]
          \<and> h' ! length [[(''a'', 1::int), (''b'', 2)]]
              = filterWithKey (\<lambda>k v. k = ''a'') [(''a'', 1), (''b'', 2)])
   \<and> filterWithKey (\<lambda>k v. k = ''a'') [(''a'', 1::int), (''b'', 2)] = [(''a'', 1)]
   \<and> filterByKey [''a''] [(''a'', 1::int), (''b'', 2)] = [(''a'', 1)]"
proof -
  have h: "distinct (map fst [(''a'', 1::int), (''b'', 2)])" by simp
  have s: "(0::nat) < length [[(''a'', 1::int), (''b'', 2)]]
    \<and> [[(''a'', 1::int), (''b'', 2)]] ! 0 = [(''a'', 1), (''b'', 2)]" by simp
  have e: "filterWithKey (\<lambda>k v. k = ''a'') [(''a'', 1::int), (''b'', 2)] = [(''a'', 1)]
    \<and> filterByKey [''a''] [(''a'', 1::int), (''b'', 2)] = [(''a'', 1)]"
    by (simp add: filterByKey_def filterWithKey_def dict_of_items_def)
  show ?thesis
    using h s e filterWithKey_exact
      [OF h, where p = "\<lambda>k v. k = ''a''" and ks = "[''a'']" and r = 0
         and h = "[[(''a'', 1::int), (''b'', 2)]]"]
    by blast
qed

theorem delete_insert_pure_witness:
  "distinct (map fst [(''a'', 1::int), (''b'', 2)])
   \<and> set (delete ''a'' [(''a'', 1::int), (''b'', 2)])
       = {(k, v). (k, v) \<in> set [(''a'', 1), (''b'', 2)] \<and> k \<noteq> ''a''}
   \<and> distinct (map fst (delete ''a'' [(''a'', 1::int), (''b'', 2)]))
   \<and> dict_get (insert_dict ''a'' 5 [(''a'', 1::int), (''b'', 2)])
       = (dict_get [(''a'', 1), (''b'', 2)])(''a'' \<mapsto> 5)
   \<and> distinct (map fst (insert_dict ''a'' 5 [(''a'', 1::int), (''b'', 2)]))
   \<and> (0::nat) < length [[(''a'', 1::int), (''b'', 2)]]
   \<and> [[(''a'', 1::int), (''b'', 2)]] ! 0 = [(''a'', 1), (''b'', 2)]
   \<and> (\<exists>h'. delete_obj ''a'' 0 [[(''a'', 1::int), (''b'', 2)]]
              = Some (length [[(''a'', 1::int), (''b'', 2)]], h')
          \<and> length [[(''a'', 1::int), (''b'', 2)]] \<noteq> 0
          \<and> take (length [[(''a'', 1::int), (''b'', 2)]]) h' = [[(''a'', 1), (''b'', 2)]]
          \<and> h' ! 0 = [(''a'', 1), (''b'', 2)]
          \<and> h' ! length [[(''a'', 1::int), (''b'', 2)]]
              = delete ''a'' [(''a'', 1), (''b'', 2)])
   \<and> (\<exists>h'. insert_obj ''a'' 5 0 [[(''a'', 1::int), (''b'', 2)]]
              = Some (length [[(''a'', 1::int), (''b'', 2)]], h')
          \<and> length [[(''a'', 1::int), (''b'', 2)]] \<noteq> 0
          \<and> take (length [[(''a'', 1::int), (''b'', 2)]]) h' = [[(''a'', 1), (''b'', 2)]]
          \<and> h' ! 0 = [(''a'', 1), (''b'', 2)]
          \<and> h' ! length [[(''a'', 1::int), (''b'', 2)]]
              = insert_dict ''a'' 5 [(''a'', 1), (''b'', 2)])
   \<and> delete ''a'' [(''a'', 1::int), (''b'', 2)] = [(''b'', 2)]
   \<and> delete ''c'' [(''a'', 1::int), (''b'', 2)] = [(''a'', 1), (''b'', 2)]
   \<and> insert_dict ''b'' 2 [(''a'', 1::int)] = [(''a'', 1), (''b'', 2)]
   \<and> insert_dict ''a'' 2 [(''a'', 1::int)] = [(''a'', 2)]"
proof -
  have h: "distinct (map fst [(''a'', 1::int), (''b'', 2)])" by simp
  have s: "(0::nat) < length [[(''a'', 1::int), (''b'', 2)]]
    \<and> [[(''a'', 1::int), (''b'', 2)]] ! 0 = [(''a'', 1), (''b'', 2)]" by simp
  have e: "delete ''a'' [(''a'', 1::int), (''b'', 2)] = [(''b'', 2)]
    \<and> delete ''c'' [(''a'', 1::int), (''b'', 2)] = [(''a'', 1), (''b'', 2)]
    \<and> insert_dict ''b'' 2 [(''a'', 1::int)] = [(''a'', 1), (''b'', 2)]
    \<and> insert_dict ''a'' 2 [(''a'', 1::int)] = [(''a'', 2)]"
    by (simp add: delete_def insert_dict_def dict_of_items_def)
  show ?thesis
    using h s e delete_insert_pure
      [OF h, where key = "''a''" and val = 5 and r = 0
         and h = "[[(''a'', 1::int), (''b'', 2)]]"]
    by blast
qed

subsection \<open>lookup and getByKeys\<close>

lemma lookup_Nothing_iff:
  "lookup k d = Nothing \<longleftrightarrow> dict_get d k = None \<or> dict_get d k = Some PNone"
  by (auto simp: lookup_def maybe_of_def split: option.splits)

lemma lookup_Some_iff:
  "lookup k d = Some' v \<longleftrightarrow> dict_get d k = Some v \<and> v \<noteq> PNone"
  by (auto simp: lookup_def maybe_of_def split: option.splits)

lemma sequence_first_Left:
  assumes "\<forall>k' \<in> set pre. lookup k' d \<noteq> Nothing" and "lookup k d = Nothing"
  shows "sequence (map (\<lambda>k. maybe (Left k) (\<lambda>v. Right (k, v)) (lookup k d)) (pre @ k # post)) = Left k"
  using assms
proof (induction pre)
  case Nil
  then show ?case by (simp add: maybe_def)
next
  case (Cons a pre)
  then obtain v where "lookup a d = Some' v" by (cases "lookup a d") auto
  with Cons show ?case by (simp add: maybe_def either_map_def)
qed

lemma sequence_all_Right:
  assumes "\<forall>k \<in> set ks. lookup k d \<noteq> Nothing"
  shows "sequence (map (\<lambda>k. maybe (Left k) (\<lambda>v. Right (k, v)) (lookup k d)) ks)
         = Right (map (\<lambda>k. (k, the (dict_get d k))) ks)"
  using assms
proof (induction ks)
  case Nil
  then show ?case by simp
next
  case (Cons a ks)
  then obtain v where v: "lookup a d = Some' v" by (cases "lookup a d") auto
  then have "the (dict_get d a) = v" by (simp add: lookup_Some_iff)
  with v Cons show ?case by (simp add: maybe_def either_map_def)
qed

lemma getByKeys_first_Left:
  "\<forall>k' \<in> set pre. lookup k' d \<noteq> Nothing \<Longrightarrow> lookup k d = Nothing \<Longrightarrow>
   getByKeys (pre @ k # post) d = Left k"
  using sequence_first_Left [of pre d k post]
  by (simp add: getByKeys_def either_map_def)

lemma map_of_rev_keyed:
  "map_of (rev (map (\<lambda>k. (k, f k)) ks)) = (\<lambda>k. if k \<in> set ks then Some (f k) else None)"
  by (induction ks) (auto simp: fun_eq_iff map_add_def)

lemma getByKeys_all_Right:
  assumes "\<forall>k \<in> set ks. lookup k d \<noteq> Nothing"
  shows "\<exists>r. getByKeys ks d = Right r \<and> distinct (map fst r) \<and> dict_get r = dict_get d |` set ks"
proof -
  let ?items = "map (\<lambda>k. (k, the (dict_get d k))) ks"
  have g: "getByKeys ks d = Right (dict_of_items ?items)"
    using sequence_all_Right [OF assms]
    by (simp add: getByKeys_def either_map_def)
  have present: "k \<in> set ks \<Longrightarrow> \<exists>v. dict_get d k = Some v" for k
    using assms by (cases "dict_get d k") (auto simp: lookup_Nothing_iff)
  have "dict_get (dict_of_items ?items) x = (dict_get d |` set ks) x" for x
  proof (cases "x \<in> set ks")
    case True
    with present [of x] show ?thesis
      by (auto simp: dict_get_def dict_of_items_map_of map_of_rev_keyed)
  next
    case False
    then show ?thesis
      by (simp add: dict_get_def dict_of_items_map_of map_of_rev_keyed)
  qed
  then have "dict_get (dict_of_items ?items) = dict_get d |` set ks"
    by (rule ext)
  with g show ?thesis by (simp add: dict_of_items_distinct)
qed

lemma getByKeys_some_Left:
  assumes "k \<in> set ks" and "lookup k d = Nothing"
  shows "\<exists>k'. getByKeys ks d = Left k'"
proof -
  from assms have "\<exists>x \<in> set ks. lookup x d = Nothing" by blast
  from split_list_first_prop [OF this]
  obtain pre x post where "ks = pre @ x # post" "lookup x d = Nothing"
    "\<forall>y \<in> set pre. lookup y d \<noteq> Nothing"
    by blast
  then show ?thesis using getByKeys_first_Left [of pre d x post] by auto
qed

lemma map_of_filter_key:
  "map_of (filter (\<lambda>(k, v). P k) d) x = (if P x then map_of d x else None)"
  by (induction d) auto

lemma dict_get_delete:
  "distinct (map fst d) \<Longrightarrow> dict_get (delete key d) x = (if x = key then None else dict_get d x)"
  by (simp add: delete_filter dict_get_def map_of_filter_key)

lemma lookup_delete_None_value:
  "distinct (map fst d) \<Longrightarrow> dict_get d k = Some PNone \<Longrightarrow> lookup x (delete k d) = lookup x d"
  by (simp add: lookup_def dict_get_delete)

lemma getByKeys_cong_lookup:
  "(\<And>x. lookup x d' = lookup x d) \<Longrightarrow> getByKeys ks d' = getByKeys ks d"
  by (simp add: getByKeys_def)

lemma present_iff:
  "(\<exists>v. dict_get d x = Some v \<and> v \<noteq> PNone) \<longleftrightarrow> lookup x d \<noteq> Nothing"
  by (cases "dict_get d x") (auto simp: lookup_Nothing_iff)


text \<open>
  C1, as the code has it. A key is unusable when it is missing from \<open>d\<close> or stored with
  the value \<open>None\<close>. If \<open>k\<close> is the first unusable key in the iteration order of the
  key set, \<open>getByKeys ks d\<close> is \<open>Left k\<close>; if no key of \<open>ks\<close> is unusable, it is
  \<open>Right\<close> of a dict that is \<open>d\<close> restricted to exactly the keys of \<open>ks\<close>.
\<close>

theorem getByKeys_first_unusable:
  "(ks = pre @ k # post
      \<and> (\<forall>k' \<in> set pre. \<exists>v. dict_get d k' = Some v \<and> v \<noteq> PNone)
      \<and> (dict_get d k = None \<or> dict_get d k = Some PNone)
    \<longrightarrow> getByKeys ks d = Left k)
   \<and> ((\<forall>k' \<in> set ks. \<exists>v. dict_get d k' = Some v \<and> v \<noteq> PNone)
    \<longrightarrow> (\<exists>r. getByKeys ks d = Right r \<and> distinct (map fst r)
             \<and> dict_get r = dict_get d |` set ks))"
proof (intro conjI impI)
  assume a: "ks = pre @ k # post
      \<and> (\<forall>k' \<in> set pre. \<exists>v. dict_get d k' = Some v \<and> v \<noteq> PNone)
      \<and> (dict_get d k = None \<or> dict_get d k = Some PNone)"
  then have "\<forall>k' \<in> set pre. lookup k' d \<noteq> Nothing" and "lookup k d = Nothing"
    by (simp_all add: present_iff lookup_Nothing_iff)
  then have "getByKeys (pre @ k # post) d = Left k"
    by (rule getByKeys_first_Left)
  with a show "getByKeys ks d = Left k" by simp
next
  assume "\<forall>k' \<in> set ks. \<exists>v. dict_get d k' = Some v \<and> v \<noteq> PNone"
  then have "\<forall>k' \<in> set ks. lookup k' d \<noteq> Nothing"
    by (simp add: present_iff)
  then show "\<exists>r. getByKeys ks d = Right r \<and> distinct (map fst r)
             \<and> dict_get r = dict_get d |` set ks"
    by (rule getByKeys_all_Right)
qed

theorem getByKeys_first_unusable_witness:
  "getByKeys [''a'', ''c''] [(''a'', PInt 1), (''b'', PInt 2)] = Left ''c''
   \<and> (\<exists>r. getByKeys [''a''] [(''a'', PInt 1), (''b'', PInt 2)] = Right r
          \<and> distinct (map fst r)
          \<and> dict_get r = dict_get [(''a'', PInt 1), (''b'', PInt 2)] |` set [''a''])"
proof -
  have "getByKeys [''a'', ''c''] [(''a'', PInt 1), (''b'', PInt 2)] = Left ''c''"
    using getByKeys_first_unusable
      [of "[''a'', ''c'']" "[''a'']" "''c''" "[]" "[(''a'', PInt 1), (''b'', PInt 2)]"]
    by (simp add: dict_get_def)
  moreover have "\<exists>r. getByKeys [''a''] [(''a'', PInt 1), (''b'', PInt 2)] = Right r
          \<and> distinct (map fst r)
          \<and> dict_get r = dict_get [(''a'', PInt 1), (''b'', PInt 2)] |` set [''a'']"
    using getByKeys_first_unusable
      [of "[''a'']" "[]" "''a''" "[]" "[(''a'', PInt 1), (''b'', PInt 2)]"]
    by (simp add: dict_get_def)
  ultimately show ?thesis by simp
qed

text \<open>
  C1 as stated fails: in \<open>{'a': None}\<close> no key of \<open>{'a'}\<close> is missing, yet the result is
  \<open>Left 'a'\<close>, not \<open>Right\<close> of the sub-mapping.
\<close>

theorem getByKeys_None_value_counterexample:
  "dict_get [(''a'', PNone)] ''a'' = Some PNone
   \<and> getByKeys [''a''] [(''a'', PNone)] = Left ''a''"
  by (simp add: getByKeys_def lookup_def dict_get_def maybe_of_def maybe_def either_map_def)

text \<open>
  C10, as the code has it. If \<open>k\<close> is stored in \<open>d\<close> with the value \<open>None\<close>, then
  \<open>lookup k d\<close> is \<open>Nothing\<close>; \<open>getByKeys ks d\<close> with \<open>k\<close> in \<open>ks\<close> is a
  \<open>Left\<close>, and it is \<open>Left k\<close> when every key before \<open>k\<close> in the iteration order of
  \<open>ks\<close> is present with a value other than \<open>None\<close>; and \<open>lookup\<close> and \<open>getByKeys\<close>
  give the same results on \<open>d\<close> as on \<open>d\<close> with \<open>k\<close> deleted.
\<close>

theorem None_value_is_missing:
  assumes "dict_get d k = Some PNone"
  shows "lookup k d = Nothing
       \<and> (k \<in> set ks \<longrightarrow> (\<exists>k'. getByKeys ks d = Left k'))
       \<and> (ks = pre @ k # post \<and> (\<forall>k' \<in> set pre. \<exists>v. dict_get d k' = Some v \<and> v \<noteq> PNone)
            \<longrightarrow> getByKeys ks d = Left k)
       \<and> (distinct (map fst d)
            \<longrightarrow> lookup k (delete k d) = lookup k d \<and> getByKeys ks (delete k d) = getByKeys ks d)"
proof (intro conjI impI)
  show 1: "lookup k d = Nothing"
    using assms by (simp add: lookup_Nothing_iff)
  show "\<exists>k'. getByKeys ks d = Left k'" if "k \<in> set ks"
    using that 1 by (rule getByKeys_some_Left)
  show "getByKeys ks d = Left k"
    if a: "ks = pre @ k # post \<and> (\<forall>k' \<in> set pre. \<exists>v. dict_get d k' = Some v \<and> v \<noteq> PNone)"
  proof -
    from a have "\<forall>k' \<in> set pre. lookup k' d \<noteq> Nothing"
      by (simp add: present_iff)
    then have "getByKeys (pre @ k # post) d = Left k"
      using 1 by (rule getByKeys_first_Left)
    with a show ?thesis by simp
  qed
  show "lookup k (delete k d) = lookup k d" if "distinct (map fst d)"
    using that assms by (rule lookup_delete_None_value)
  show "getByKeys ks (delete k d) = getByKeys ks d" if "distinct (map fst d)"
    by (rule getByKeys_cong_lookup) (rule lookup_delete_None_value [OF that assms])
qed

theorem None_value_is_missing_witness:
  "dict_get [(''k'', PNone), (''b'', PInt 2)] ''k'' = Some PNone
   \<and> lookup ''k'' [(''k'', PNone), (''b'', PInt 2)] = Nothing
   \<and> getByKeys [''b'', ''k''] [(''k'', PNone), (''b'', PInt 2)] = Left ''k''
   \<and> getByKeys [''b'', ''k''] (delete ''k'' [(''k'', PNone), (''b'', PInt 2)]) = Left ''k''"
proof -
  have h: "dict_get [(''k'', PNone), (''b'', PInt 2)] ''k'' = Some PNone"
    by (simp add: dict_get_def)
  show ?thesis
    using h None_value_is_missing [OF h, of "[''b'', ''k'']" "[''b'']" "[]"]
    by (simp add: dict_get_def)
qed

text \<open>
  C10 as stated fails: with \<open>d = {'k': None}\<close> and the key set iterated as \<open>'a', 'k'\<close>,
  the key \<open>'k'\<close> is in the key set and stored with \<open>None\<close>, but the result is
  \<open>Left 'a'\<close>, the missing key met first.
\<close>

theorem None_value_other_key_counterexample:
  "dict_get [(''k'', PNone)] ''k'' = Some PNone
   \<and> ''k'' \<in> set [''a'', ''k'']
   \<and> getByKeys [''a'', ''k''] [(''k'', PNone)] = Left ''a''
   \<and> getByKeys [''a'', ''k''] [(''k'', PNone)] \<noteq> Left ''k''"
  by (simp add: getByKeys_def lookup_def dict_get_def maybe_of_def maybe_def either_map_def)

subsection \<open>append\<close>

lemma map_of_rev_distinct: "distinct (map fst xs) \<Longrightarrow> map_of (rev xs) = map_of xs"
  using dict_of_items_id [of xs] dict_of_items_map_of [of xs] by simp

lemma append_dict_unfold:
  "append_dict d1 d2 =
     dict_of_items (d1 @ d2 @ dict_of_items
       (concat (map (\<lambda>(k, v). case (v, dict_get d2 k) of
                        (PDict a, Some (PDict b)) \<Rightarrow> [(k, PDict (append_dict a b))]
                      | _ \<Rightarrow> []) d1)))"
  by (subst append_dict.simps) (simp add: Let_def)

lemma keyed_absent:
  "x \<notin> fst ` set d \<Longrightarrow>
   map_of (concat (map (\<lambda>(k, v). case h k v of None \<Rightarrow> [] | Some w \<Rightarrow> [(k, w)]) d)) x = None"
  by (induction d) (auto split: option.splits)

lemma keyed_map_of:
  "distinct (map fst d) \<Longrightarrow>
   map_of (concat (map (\<lambda>(k, v). case h k v of None \<Rightarrow> [] | Some w \<Rightarrow> [(k, w)]) d)) x
   = (case map_of d x of None \<Rightarrow> None | Some v \<Rightarrow> h x v)"
proof (induction d)
  case Nil
  then show ?case by simp
next
  case (Cons p d)
  obtain k v where p: "p = (k, v)" by (cases p)
  from Cons.prems p have k: "k \<notin> fst ` set d" and d: "distinct (map fst d)" by auto
  show ?case
  proof (cases "x = k")
    case True
    then show ?thesis using keyed_absent [OF k, of h] p
      by (simp split: option.splits)
  next
    case False
    then show ?thesis using Cons.IH [OF d] p
      by (simp split: option.splits)
  qed
qed

lemma keyed_distinct:
  "distinct (map fst d) \<Longrightarrow>
   distinct (map fst (concat (map (\<lambda>(k, v). case h k v of None \<Rightarrow> [] | Some w \<Rightarrow> [(k, w)]) d)))"
proof (induction d)
  case Nil
  then show ?case by simp
next
  case (Cons p d)
  obtain k v where p: "p = (k, v)" by (cases p)
  from Cons.prems p have k: "k \<notin> fst ` set d" and d: "distinct (map fst d)" by auto
  have "k \<notin> fst ` set (concat (map (\<lambda>(k, v). case h k v of None \<Rightarrow> [] | Some w \<Rightarrow> [(k, w)]) d))"
    using keyed_absent [OF k, of h] by (simp add: map_of_eq_None_iff)
  then show ?case using Cons.IH [OF d] p
    by (simp split: option.splits)
qed

lemma d3_keyed:
  "(\<lambda>(k, v). case (v, dict_get d2 k) of
               (PDict a, Some (PDict b)) \<Rightarrow> [(k, PDict (g a b))]
             | _ \<Rightarrow> [])
   = (\<lambda>(k, v). case (case (v, dict_get d2 k) of
                        (PDict a, Some (PDict b)) \<Rightarrow> Some (PDict (g a b))
                      | _ \<Rightarrow> None) of
                 None \<Rightarrow> [] | Some w \<Rightarrow> [(k, w)])"
  by (auto simp: fun_eq_iff split: pyval.splits option.splits)

lemma d3_map_of:
  "distinct (map fst d1) \<Longrightarrow>
   map_of (concat (map (\<lambda>(k, v). case (v, dict_get d2 k) of
                        (PDict a, Some (PDict b)) \<Rightarrow> [(k, PDict (g a b))]
                      | _ \<Rightarrow> []) d1)) x
   = (case map_of d1 x of
        Some (PDict a) \<Rightarrow>
          (case dict_get d2 x of Some (PDict b) \<Rightarrow> Some (PDict (g a b)) | _ \<Rightarrow> None)
      | _ \<Rightarrow> None)"
  unfolding d3_keyed
  by (simp add: keyed_map_of split: option.splits pyval.splits)

lemma d3_distinct:
  "distinct (map fst d1) \<Longrightarrow>
   distinct (map fst (concat (map (\<lambda>(k, v). case (v, dict_get d2 k) of
                        (PDict a, Some (PDict b)) \<Rightarrow> [(k, PDict (g a b))]
                      | _ \<Rightarrow> []) d1)))"
  unfolding d3_keyed by (rule keyed_distinct)

lemma append_dict_get:
  assumes "distinct (map fst m1)" and "distinct (map fst m2)"
  shows "dict_get (append_dict m1 m2) k =
          (case dict_get m2 k of
             None \<Rightarrow> dict_get m1 k
           | Some v2 \<Rightarrow>
               (case (dict_get m1 k, v2) of
                  (Some (PDict a), PDict b) \<Rightarrow> Some (PDict (append_dict a b))
                | _ \<Rightarrow> Some v2))"
proof -
  define d3 where "d3 = concat (map (\<lambda>(k, v). case (v, dict_get m2 k) of
                        (PDict a, Some (PDict b)) \<Rightarrow> [(k, PDict (append_dict a b))]
                      | _ \<Rightarrow> []) m1)"
  have dd: "distinct (map fst d3)"
    unfolding d3_def by (rule d3_distinct [OF assms(1)])
  have m3: "map_of d3 k = (case map_of m1 k of
        Some (PDict a) \<Rightarrow>
          (case dict_get m2 k of Some (PDict b) \<Rightarrow> Some (PDict (append_dict a b)) | _ \<Rightarrow> None)
      | _ \<Rightarrow> None)"
    unfolding d3_def by (rule d3_map_of [OF assms(1)])
  have "append_dict m1 m2 = dict_of_items (m1 @ m2 @ dict_of_items d3)"
    unfolding d3_def by (rule append_dict_unfold)
  then have "append_dict m1 m2 = dict_of_items (m1 @ m2 @ d3)"
    by (simp only: dict_of_items_id [OF dd])
  then have "map_of (append_dict m1 m2) = map_of (rev d3 @ rev m2 @ rev m1)"
    by (simp only: dict_of_items_map_of rev_append append_assoc)
  also have "\<dots> = map_of m1 ++ map_of m2 ++ map_of d3"
    by (simp only: map_of_append map_of_rev_distinct [OF dd] map_of_rev_distinct [OF assms(1)]
          map_of_rev_distinct [OF assms(2)] map_add_assoc)
  finally have "dict_get (append_dict m1 m2) k = (map_of m1 ++ map_of m2 ++ map_of d3) k"
    by (simp add: dict_get_def)
  also have "\<dots> = (case dict_get m2 k of
             None \<Rightarrow> dict_get m1 k
           | Some v2 \<Rightarrow>
               (case (dict_get m1 k, v2) of
                  (Some (PDict a), PDict b) \<Rightarrow> Some (PDict (append_dict a b))
                | _ \<Rightarrow> Some v2))"
    by (simp add: map_add_def m3 dict_get_def split: option.splits pyval.splits)
  finally show ?thesis .
qed

lemma append_dict_distinct: "distinct (map fst (append_dict m1 m2))"
  by (subst append_dict_unfold) (rule dict_of_items_distinct)

text \<open>
  C2. For dicts \<open>m1\<close> and \<open>m2\<close> (their keys distinct) and every key \<open>k\<close>: if \<open>k\<close> is
  in both and both values are dicts, \<open>append_dict m1 m2\<close> maps \<open>k\<close> to the
  \<open>append_dict\<close> of the two values; otherwise it maps \<open>k\<close> to the value of \<open>m2\<close> if
  \<open>m2\<close> has \<open>k\<close>, and else to what \<open>m1\<close> has at \<open>k\<close>. The four examples of the
  docstring hold.
\<close>

theorem append_dict_deep_merge:
  "(distinct (map fst m1) \<and> distinct (map fst m2) \<longrightarrow>
      dict_get (append_dict m1 m2) k =
        (case dict_get m2 k of
           None \<Rightarrow> dict_get m1 k
         | Some v2 \<Rightarrow>
             (case (dict_get m1 k, v2) of
                (Some (PDict a), PDict b) \<Rightarrow> Some (PDict (append_dict a b))
              | _ \<Rightarrow> Some v2))
      \<and> distinct (map fst (append_dict m1 m2)))
   \<and> append_dict [] [(''a'', PInt 1)] = [(''a'', PInt 1)]
   \<and> append_dict [(''a'', PInt 1)] [(''a'', PInt 2)] = [(''a'', PInt 2)]
   \<and> append_dict [(''a'', PInt 1)] [(''b'', PInt 2)] = [(''a'', PInt 1), (''b'', PInt 2)]
   \<and> append_dict [(''a'', PDict [(''x'', PInt 1)])] [(''a'', PDict [(''y'', PInt 2)])]
       = [(''a'', PDict [(''x'', PInt 1), (''y'', PInt 2)])]"
proof (intro conjI impI)
  assume d: "distinct (map fst m1) \<and> distinct (map fst m2)"
  then show "dict_get (append_dict m1 m2) k =
        (case dict_get m2 k of
           None \<Rightarrow> dict_get m1 k
         | Some v2 \<Rightarrow>
             (case (dict_get m1 k, v2) of
                (Some (PDict a), PDict b) \<Rightarrow> Some (PDict (append_dict a b))
              | _ \<Rightarrow> Some v2))"
    by (simp add: append_dict_get)
  show "distinct (map fst (append_dict m1 m2))"
    by (rule append_dict_distinct)
next
  show "append_dict [] [(''a'', PInt 1)] = [(''a'', PInt 1)]"
    by code_simp
  show "append_dict [(''a'', PInt 1)] [(''a'', PInt 2)] = [(''a'', PInt 2)]"
    by code_simp
  show "append_dict [(''a'', PInt 1)] [(''b'', PInt 2)] = [(''a'', PInt 1), (''b'', PInt 2)]"
    by code_simp
  show "append_dict [(''a'', PDict [(''x'', PInt 1)])] [(''a'', PDict [(''y'', PInt 2)])]
       = [(''a'', PDict [(''x'', PInt 1), (''y'', PInt 2)])]"
    by code_simp
qed

theorem append_dict_deep_merge_witness:
  "distinct (map fst [(''a'', PDict [(''x'', PInt 1)]), (''b'', PInt 1)])
   \<and> distinct (map fst [(''a'', PDict [(''y'', PInt 2)]), (''c'', PInt 3)])
   \<and> dict_get (append_dict [(''a'', PDict [(''x'', PInt 1)]), (''b'', PInt 1)]
                            [(''a'', PDict [(''y'', PInt 2)]), (''c'', PInt 3)]) ''a''
       = Some (PDict (append_dict [(''x'', PInt 1)] [(''y'', PInt 2)]))
   \<and> distinct (map fst (append_dict [(''a'', PDict [(''x'', PInt 1)]), (''b'', PInt 1)]
                            [(''a'', PDict [(''y'', PInt 2)]), (''c'', PInt 3)]))"
  using append_dict_deep_merge
    [of "[(''a'', PDict [(''x'', PInt 1)]), (''b'', PInt 1)]"
        "[(''a'', PDict [(''y'', PInt 2)]), (''c'', PInt 3)]" "''a''"]
  by (simp add: dict_get_def)

subsection \<open>The depth of the recursion of append\<close>

lemma foldr_max_ge: "x \<in> set xs \<Longrightarrow> x \<le> foldr max xs (0::nat)"
  by (induction xs) auto

lemma nesting_depth_child:
  assumes "(k, PDict a) \<in> set d"
  shows "nesting_depth a < nesting_depth d"
proof -
  have "(case (k, PDict a) of (k, v) \<Rightarrow> case v of PDict a \<Rightarrow> nesting_depth a | _ \<Rightarrow> 0)
        \<in> set (map (\<lambda>(k, v). case v of PDict a \<Rightarrow> nesting_depth a | _ \<Rightarrow> 0) d)"
    using assms by (intro imageI [of _ "set d", folded set_map])
  then have "nesting_depth a
        \<in> set (map (\<lambda>(k, v). case v of PDict a \<Rightarrow> nesting_depth a | _ \<Rightarrow> 0) d)"
    by simp
  from foldr_max_ge [OF this] show ?thesis
    by (subst (2) nesting_depth.simps) simp
qed

lemma those_map_Some:
  "(\<And>x. x \<in> set xs \<Longrightarrow> f x = Some (g x)) \<Longrightarrow> those (map f xs) = Some (map g xs)"
  by (induction xs) auto

text \<open>
  C7. \<open>append_dict\<close> is total on the finite, tree-shaped values of the datatype, and the
  depth of its recursion is at most the nesting depth of its arguments (of the shallower
  one): with a budget of that many nested calls, the budgeted function returns, and
  returns what \<open>append_dict\<close> does.
\<close>

theorem append_fuel_enough:
  "min (nesting_depth m1) (nesting_depth m2) \<le> n \<Longrightarrow>
   append_fuel n m1 m2 = Some (append_dict m1 m2)"
proof (induction n arbitrary: m1 m2)
  case 0
  then show ?case by (cases "nesting_depth m1 = 0")
      (simp_all add: nesting_depth.simps [of m1] nesting_depth.simps [of m2])
next
  case (Suc n)
  let ?f = "\<lambda>(k, v). case (v, dict_get m2 k) of
                         (PDict a, Some (PDict b)) \<Rightarrow>
                            map_option (\<lambda>r. [(k, PDict r)]) (append_fuel n a b)
                       | _ \<Rightarrow> Some []"
  let ?g = "\<lambda>(k, v). case (v, dict_get m2 k) of
                        (PDict a, Some (PDict b)) \<Rightarrow> [(k, PDict (append_dict a b))]
                      | _ \<Rightarrow> []"
  have step: "?f x = Some (?g x)" if x: "x \<in> set m1" for x
  proof -
    obtain k v where kv: "x = (k, v)" by (cases x)
    show ?thesis
    proof (cases "\<exists>a b. v = PDict a \<and> dict_get m2 k = Some (PDict b)")
      case True
      then obtain a b where ab: "v = PDict a" "dict_get m2 k = Some (PDict b)" by blast
      from x kv ab have "nesting_depth a < nesting_depth m1"
        by (auto intro: nesting_depth_child)
      moreover from ab have "(k, PDict b) \<in> set m2"
        by (simp add: dict_get_def map_of_SomeD)
      then have "nesting_depth b < nesting_depth m2"
        by (rule nesting_depth_child)
      ultimately have "min (nesting_depth a) (nesting_depth b) \<le> n"
        using Suc.prems by linarith
      then have "append_fuel n a b = Some (append_dict a b)"
        by (rule Suc.IH)
      with kv ab show ?thesis by simp
    next
      case False
      with kv show ?thesis
        by (auto split: pyval.splits option.splits)
    qed
  qed
  have "those (map ?f m1) = Some (map ?g m1)"
    by (rule those_map_Some) (rule step)
  then have "append_fuel (Suc n) m1 m2
      = Some (dict_of_items (m1 @ m2 @ dict_of_items (concat (map ?g m1))))"
    by (simp only: append_fuel.simps option.case)
  then show ?case by (simp only: append_dict_unfold [symmetric])
qed

theorem append_fuel_enough_witness:
  "min (nesting_depth [(''a'', PDict [(''x'', PInt 1)])])
       (nesting_depth [(''a'', PDict [(''y'', PDict [(''z'', PInt 2)])])]) \<le> 2
   \<and> append_fuel 2 [(''a'', PDict [(''x'', PInt 1)])]
                    [(''a'', PDict [(''y'', PDict [(''z'', PInt 2)])])]
       = Some (append_dict [(''a'', PDict [(''x'', PInt 1)])]
                           [(''a'', PDict [(''y'', PDict [(''z'', PInt 2)])])])"
proof -
  have h: "min (nesting_depth [(''a'', PDict [(''x'', PInt 1)])])
       (nesting_depth [(''a'', PDict [(''y'', PDict [(''z'', PInt 2)])])]) \<le> 2"
    by code_simp
  show ?thesis using h append_fuel_enough [OF h] by simp
qed

subsection \<open>unflatten\<close>

lemma split_at_nonempty: "split_at sep s \<noteq> []"
  by (induction sep s rule: split_at.induct) (auto split: list.splits)

lemma join_Cons: "ps \<noteq> [] \<Longrightarrow> join sep (p # ps) = p @ sep @ join sep ps"
  by (cases ps) auto

lemma join_Cons_head: "join sep ((c # p) # ps) = c # join sep (p # ps)"
  by (cases ps) auto

lemma join_split_at: "sep \<noteq> [] \<Longrightarrow> join sep (split_at sep s) = s"
proof (induction sep s rule: split_at.induct)
  case (1 sep)
  then show ?case by simp
next
  case (2 sep c s)
  show ?case
  proof (cases "prefix sep (c # s)")
    case True
    then have "c # s = sep @ drop (length sep) (c # s)"
      by (metis append_eq_conv_conj prefixE)
    moreover have "join sep ([] # split_at sep (drop (length sep) (c # s)))
        = sep @ join sep (split_at sep (drop (length sep) (c # s)))"
      by (simp add: join_Cons split_at_nonempty)
    ultimately show ?thesis using True 2 by simp
  next
    case False
    obtain p ps where pps: "split_at sep s = p # ps"
      using split_at_nonempty [of sep s] by (cases "split_at sep s") auto
    with False 2 show ?thesis by (simp add: join_Cons_head)
  qed
qed

lemma split_at_no_sep: "\<not> sublist sep s \<Longrightarrow> split_at sep s = [s]"
proof (induction s)
  case Nil
  then show ?case by simp
next
  case (Cons c s)
  then have "\<not> prefix sep (c # s)" and "\<not> sublist sep s"
    by (auto simp: sublist_Cons_right)
  with Cons.IH show ?case by simp
qed

lemma unflatten1_path_dict: "ps \<noteq> [] \<Longrightarrow> unflatten1 ps v = Inr (path_dict ps v)"
  by (induction ps v rule: unflatten1.induct) auto

lemma entry_path_dict:
  "(if sublist sep k then path_dict (split_at sep k) v else [(k, v)])
   = path_dict (split_at sep k) v"
  by (simp add: split_at_no_sep)

lemma reduce_append_foldl:
  "sep \<noteq> [] \<Longrightarrow>
   reduce_append acc d sep
   = Inr (foldl append_dict acc
       (map (\<lambda>(k, v). if sublist sep k then path_dict (split_at sep k) v else [(k, v)]) d))"
proof (induction d arbitrary: acc)
  case Nil
  then show ?case by simp
next
  case (Cons kv d)
  obtain k v where kv: "kv = (k, v)" by (cases kv)
  have "unflatten1 (split_at sep k) v = Inr (path_dict (split_at sep k) v)"
    by (rule unflatten1_path_dict) (rule split_at_nonempty)
  with Cons kv show ?case
    by (simp add: split_def entry_path_dict)
qed

lemma unflatten_empty_separator:
  "d \<noteq> [] \<Longrightarrow> unflatten d [] = Inl ValueError"
  by (cases d) (auto simp: unflatten_def split_def)

text \<open>
  C3, as the code has it. For a non-empty separator, \<open>unflatten d sep\<close> raises nothing
  and is \<open>unflattenKeys d sep\<close>: each key containing the separator is split into path
  segments and gives the singleton nested mapping of that path, any other key a top-level
  leaf, and the singletons are folded with \<open>append_dict\<close> from the empty mapping in the
  order of \<open>d\<close>. The segments of a key, joined with the separator, give the key back, and
  a key without the separator is its only segment. The two examples hold. With the empty
  separator, \<open>unflatten\<close> raises \<^verbatim>\<open>ValueError\<close> on every dict that is not empty.
\<close>

theorem unflatten_is_unflattenKeys:
  "(sep \<noteq> [] \<longrightarrow>
      unflatten d sep = Inr (unflattenKeys d sep)
      \<and> join sep (split_at sep k) = k
      \<and> (\<not> sublist sep k \<longrightarrow> split_at sep k = [k]))
   \<and> unflatten [(''a.b'', PInt 1), (''a.c'', PInt 2), (''x'', PInt 3)] ''.''
       = Inr [(''a'', PDict [(''b'', PInt 1), (''c'', PInt 2)]), (''x'', PInt 3)]
   \<and> unflatten [] ''.'' = Inr []
   \<and> (d \<noteq> [] \<longrightarrow> unflatten d [] = Inl ValueError)"
proof (intro conjI impI)
  assume sep: "sep \<noteq> []"
  show "unflatten d sep = Inr (unflattenKeys d sep)"
    unfolding unflatten_def unflattenKeys_def by (rule reduce_append_foldl [OF sep])
  show "join sep (split_at sep k) = k"
    by (rule join_split_at [OF sep])
  show "split_at sep k = [k]" if "\<not> sublist sep k"
    using that by (rule split_at_no_sep)
next
  show "unflatten [(''a.b'', PInt 1), (''a.c'', PInt 2), (''x'', PInt 3)] ''.''
       = Inr [(''a'', PDict [(''b'', PInt 1), (''c'', PInt 2)]), (''x'', PInt 3)]"
    by code_simp
  show "unflatten [] ''.'' = Inr []"
    by code_simp
next
  assume "d \<noteq> []"
  then show "unflatten d [] = Inl ValueError"
    by (rule unflatten_empty_separator)
qed

theorem unflatten_is_unflattenKeys_witness:
  "''.'' \<noteq> []
   \<and> unflatten [(''a.b'', PInt 1), (''x'', PInt 3)] ''.''
       = Inr (unflattenKeys [(''a.b'', PInt 1), (''x'', PInt 3)] ''.'')
   \<and> join ''.'' (split_at ''.'' ''x'') = ''x''
   \<and> \<not> sublist ''.'' ''x''
   \<and> split_at ''.'' ''x'' = [''x'']
   \<and> [(''a.b'', PInt 1), (''x'', PInt 3)] \<noteq> []
   \<and> unflatten [(''a.b'', PInt 1), (''x'', PInt 3)] [] = Inl ValueError"
proof -
  have h: "''.'' \<noteq> []" by simp
  have n: "\<not> sublist ''.'' ''x''" by (simp add: sublist_Cons_right)
  have e: "[(''a.b'', PInt 1), (''x'', PInt 3 :: string pyval)] \<noteq> []" by simp
  show ?thesis
    using h n e unflatten_is_unflattenKeys
      [of "''.''" "[(''a.b'', PInt 1), (''x'', PInt 3)]" "''x''"]
    by blast
qed

text \<open>
  C3 as stated fails for the empty separator: every key contains it, but
  \<^verbatim>\<open>str.split\<close> raises \<^verbatim>\<open>ValueError\<close> on it, and so does \<open>unflatten\<close> on a
  dict that is not empty.
\<close>

theorem unflatten_empty_separator_counterexample:
  "sublist [] ''a'' \<and> unflatten [(''a'', PInt 1)] [] = Inl ValueError"
  by (simp add: unflatten_def split_def)

section \<open>Properties of do.py\<close>

lemma send_never_raises_caught:
  "send M it fuel val s \<noteq> Some (Inl (ReturnMonadic w), t)"
  "send M it fuel val s \<noteq> Some (Inl (StopIteration w), t)"
  by (cases fuel; auto split: option.splits prod.splits sum.splits exn.splits)+

lemma flatmap_payload: "payload m = Some x \<Longrightarrow> flatmap m f s = f x s"
  by (auto simp: payload_def flatmap_def split: pyval.splits maybe.splits either.splits)

lemma flatmap_short_circuit: "short_circuit m \<Longrightarrow> flatmap m f s = Some (Inr m, s)"
  by (auto simp: short_circuit_def flatmap_def split: pyval.splits maybe.splits either.splits)

lemma send_passes:
  assumes "send M it fuel x s1 = Some (r, s')"
  shows "(case Some (r, s') of
            None \<Rightarrow> None
          | Some (Inl (StopIteration v), s2) \<Rightarrow> Some (Inr v, s2)
          | Some (Inl (ReturnMonadic v), s2) \<Rightarrow> Some (Inr (unit M v), s2)
          | Some r \<Rightarrow> Some r) = Some (r, s')"
  using assms send_never_raises_caught [of M it fuel x s1]
  by (auto split: sum.splits exn.splits)

lemma send_step:
  assumes "it s val = (Inr m, s1)" and "payload m = Some x"
    and "send M it fuel x s1 = Some (r, s')"
  shows "send M it (Suc fuel) val s = Some (r, s')"
proof -
  have "send M it (Suc fuel) val s =
      (case send M it fuel x s1 of
            None \<Rightarrow> None
          | Some (Inl (StopIteration v), s2) \<Rightarrow> Some (Inr v, s2)
          | Some (Inl (ReturnMonadic v), s2) \<Rightarrow> Some (Inr (unit M v), s2)
          | Some r \<Rightarrow> Some r)"
    using assms(1,2) by (simp add: flatmap_payload)
  also have "\<dots> = Some (r, s')"
    unfolding assms(3) using assms(3) by (rule send_passes)
  finally show ?thesis .
qed

lemma send_reaches:
  assumes "drive it n val s = Some (sig, s')"
    and base: "\<And>v0 s0 k. it s0 v0 = (sig, s') \<Longrightarrow> send M it (Suc k) v0 s0 = Some (res, s')"
  shows "send M it (Suc n + k) val s = Some (res, s')"
  using assms(1)
proof (induction n arbitrary: val s)
  case 0
  then have "it s val = (sig, s')" by simp
  then show ?case using base by simp
next
  case (Suc n)
  from Suc.prems obtain m s1 x where
    step: "it s val = (Inr m, s1)" "payload m = Some x" "drive it n x s1 = Some (sig, s')"
    by (auto split: prod.splits sum.splits option.splits)
  from Suc.IH [OF step(3)] have "send M it (Suc n + k) x s1 = Some (res, s')" .
  from send_step [OF step(1,2) this] show ?case by simp
qed

lemma send_mreturn:
  assumes "drive it n val s = Some (mreturn v, s')" and "n < fuel"
  shows "send M it fuel val s = Some (Inr (unit M v), s')"
proof -
  from assms(2) obtain k where fuel: "fuel = Suc n + k"
    by (metis add_Suc less_iff_Suc_add)
  show ?thesis unfolding fuel
    by (rule send_reaches [OF assms(1)]) (simp add: mreturn_def)
qed

lemma send_return:
  assumes "drive it n val s = Some (Inl (StopIteration r), s')" and "n < fuel"
  shows "send M it fuel val s = Some (Inr r, s')"
proof -
  from assms(2) obtain k where fuel: "fuel = Suc n + k"
    by (metis add_Suc less_iff_Suc_add)
  show ?thesis unfolding fuel
    by (rule send_reaches [OF assms(1)]) simp
qed

lemma send_short_circuit:
  assumes "drive it n val s = Some (Inr m, s')" and "short_circuit m" and "n < fuel"
  shows "send M it fuel val s = Some (Inr m, s')"
proof -
  from assms(3) obtain k where fuel: "fuel = Suc n + k"
    by (metis add_Suc less_iff_Suc_add)
  show ?thesis unfolding fuel
    by (rule send_reaches [OF assms(1)]) (simp add: flatmap_short_circuit [OF assms(2)])
qed

lemma drive_counting:
  "drive (resume (counting f)) n val (s, c)
   = map_option (\<lambda>(r, s'). (r, (s', c + Suc n))) (drive (resume f) n val s)"
proof (induction n arbitrary: val s c)
  case 0
  then show ?case by (simp add: counting_def split: prod.splits)
next
  case (Suc n)
  show ?case
  proof (cases "resume f s val")
    case (Pair r s1)
    then have c: "resume (counting f) (s, c) val = (r, (s1, Suc c))"
      by (simp add: counting_def)
    show ?thesis using Pair c Suc.IH
      by (simp split: sum.splits option.splits)
  qed
qed

lemma do_Generator:
  "start f args = Generator si \<Longrightarrow> send M (resume f) fuel PNone si = Some (r, s')
   \<Longrightarrow> do M f fuel args = Some (r, Some s')"
  by (simp add: do_def)

lemma start_counting:
  "start f args = Generator si \<Longrightarrow> start (counting f) args = Generator (si, 0)"
  by (simp add: counting_def)

text \<open>
  C4, as the code has it. For a generator function: if the program, after any number of
  steps that yielded a container in its success state, calls \<^verbatim>\<open>mreturn\<close> with
  \<open>v\<close>, then \<open>do M f\<close> returns \<open>unit M v\<close>, given a recursion budget larger than the
  number of those steps; and \<open>do M f\<close> never raises \<^verbatim>\<open>ReturnMonadic\<close>. For a
  function whose call raises, \<open>do M f\<close> raises the same exception, whichever it is.
\<close>

theorem do_mreturn:
  "(start f args = Generator si
      \<and> drive (resume f) n PNone si = Some (mreturn v, s') \<and> n < fuel
      \<longrightarrow> do M f fuel args = Some (Inr (unit M v), Some s'))
   \<and> (start f args = Generator si
      \<longrightarrow> do M f fuel args \<noteq> Some (Inl (ReturnMonadic w), t))
   \<and> (start f args = Raises e \<longrightarrow> do M f fuel args = Some (Inl e, None))"
proof (intro conjI impI)
  assume "start f args = Generator si
      \<and> drive (resume f) n PNone si = Some (mreturn v, s') \<and> n < fuel"
  then have g: "start f args = Generator si"
    and d: "drive (resume f) n PNone si = Some (mreturn v, s')"
    and lt: "n < fuel"
    by simp_all
  show "do M f fuel args = Some (Inr (unit M v), Some s')"
    by (rule do_Generator [OF g send_mreturn [OF d lt]])
next
  assume g: "start f args = Generator si"
  show "do M f fuel args \<noteq> Some (Inl (ReturnMonadic w), t)"
  proof
    assume "do M f fuel args = Some (Inl (ReturnMonadic w), t)"
    with g obtain s' where "send M (resume f) fuel PNone si = Some (Inl (ReturnMonadic w), s')"
      by (auto simp: do_def)
    then show False
      using send_never_raises_caught(1) [of M "resume f" fuel PNone si w s'] by simp
  qed
next
  assume "start f args = Raises e"
  then show "do M f fuel args = Some (Inl e, None)"
    by (simp add: do_def)
qed

theorem do_mreturn_witness:
  "start both (PMaybe (Some' (PInt 1)), PMaybe (Some' (PInt 2)))
     = Generator (0, PMaybe (Some' (PInt 1)), PMaybe (Some' (PInt 2)), PNone)
   \<and> drive (resume both) 2 PNone (0, PMaybe (Some' (PInt 1)), PMaybe (Some' (PInt 2)), PNone)
     = Some (mreturn (PDict [(''fst'', PInt 1), (''snd'', PInt 2)]),
         (3, PMaybe (Some' (PInt 1)), PMaybe (Some' (PInt 2)), PInt 1))
   \<and> (2::nat) < 3
   \<and> do Maybe both 3 (PMaybe (Some' (PInt 1)), PMaybe (Some' (PInt 2)))
     = Some (Inr (unit Maybe (PDict [(''fst'', PInt 1), (''snd'', PInt 2)])),
         Some (3, PMaybe (Some' (PInt 1)), PMaybe (Some' (PInt 2)), PInt 1))
   \<and> start plain (PInt 1) = Raises (ReturnMonadic (PInt 1))
   \<and> do Maybe plain 3 (PInt 1) = Some (Inl (ReturnMonadic (PInt 1)), None)"
proof -
  have g: "start both (PMaybe (Some' (PInt 1)), PMaybe (Some' (PInt 2)))
     = Generator (0, PMaybe (Some' (PInt 1)), PMaybe (Some' (PInt 2)), PNone)"
    by (simp add: both_def)
  have h: "drive (resume both) 2 PNone
       (0, PMaybe (Some' (PInt 1)), PMaybe (Some' (PInt 2)), PNone)
     = Some (mreturn (PDict [(''fst'', PInt 1), (''snd'', PInt 2)]),
         (3, PMaybe (Some' (PInt 1)), PMaybe (Some' (PInt 2)), PInt 1))"
    by (simp add: both_def payload_def numeral_2_eq_2)
  have p: "start plain (PInt 1) = Raises (ReturnMonadic (PInt 1))"
    by (simp add: plain_def mreturn_def)
  show ?thesis
    using g h p
      do_mreturn
        [where f = both and n = 2 and fuel = 3 and M = Maybe
           and args = "(PMaybe (Some' (PInt 1)), PMaybe (Some' (PInt 2)))"
           and si = "(0, PMaybe (Some' (PInt 1)), PMaybe (Some' (PInt 2)), PNone)"
           and v = "PDict [(''fst'', PInt 1), (''snd'', PInt 2)]"
           and s' = "(3, PMaybe (Some' (PInt 1)), PMaybe (Some' (PInt 2)), PInt 1)"]
      do_mreturn
        [where f = plain and fuel = 3 and M = Maybe and args = "PInt 1"
           and e = "ReturnMonadic (PInt 1)"]
    by simp
qed

text \<open>
  C4 as stated fails for a decorated function without \<^verbatim>\<open>yield\<close>: its call runs
  \<^verbatim>\<open>mreturn\<close> before \<^verbatim>\<open>send\<close> is entered, and \<^verbatim>\<open>ReturnMonadic\<close>
  reaches the caller of \<^verbatim>\<open>run\<close>.
\<close>

theorem do_plain_function_counterexample:
  "start plain (PInt 1) = Raises (ReturnMonadic (PInt 1))
   \<and> do Maybe plain 3 (PInt 1) = Some (Inl (ReturnMonadic (PInt 1)), None)
   \<and> do Maybe plain 3 (PInt 1) \<noteq> Some (Inr (unit Maybe (PInt 1)), None)"
  by (simp add: do_def plain_def mreturn_def)

text \<open>
  C5. If a step of the program, reached through steps that yielded a container in its
  success state, yields \<open>Nothing\<close> or a \<open>Left\<close>, then \<open>do M f\<close> returns that value and
  leaves the generator in the state in which it yielded it; and the program with a
  counter of its resumptions has then been resumed exactly as often as it took to reach
  that step: no later step ran.
\<close>

theorem do_short_circuit:
  "start f args = Generator si
   \<and> drive (resume f) n PNone si = Some (Inr m, s') \<and> short_circuit m \<and> n < fuel
   \<longrightarrow> do M f fuel args = Some (Inr m, Some s')
     \<and> do M (counting f) fuel args = Some (Inr m, Some (s', Suc n))"
proof (intro impI conjI)
  assume a: "start f args = Generator si
   \<and> drive (resume f) n PNone si = Some (Inr m, s') \<and> short_circuit m \<and> n < fuel"
  then have g: "start f args = Generator si"
    and d: "drive (resume f) n PNone si = Some (Inr m, s')"
    and sc: "short_circuit m" and lt: "n < fuel"
    by simp_all
  show "do M f fuel args = Some (Inr m, Some s')"
    by (rule do_Generator [OF g send_short_circuit [OF d sc lt]])
  have dc: "drive (resume (counting f)) n PNone (si, 0) = Some (Inr m, (s', Suc n))"
    using d by (simp add: drive_counting)
  show "do M (counting f) fuel args = Some (Inr m, Some (s', Suc n))"
    by (rule do_Generator [OF start_counting [OF g] send_short_circuit [OF dc sc lt]])
qed

theorem do_short_circuit_witness:
  "start both (PMaybe Nothing, PMaybe (Some' (PInt 2)))
     = Generator (0, PMaybe Nothing, PMaybe (Some' (PInt 2)), PNone)
   \<and> drive (resume both) 0 PNone (0, PMaybe Nothing, PMaybe (Some' (PInt 2)), PNone)
     = Some (Inr (PMaybe Nothing), (1, PMaybe Nothing, PMaybe (Some' (PInt 2)), PNone))
   \<and> short_circuit (PMaybe Nothing :: string pyval)
   \<and> (0::nat) < 3
   \<and> do Maybe both 3 (PMaybe Nothing, PMaybe (Some' (PInt 2)))
     = Some (Inr (PMaybe Nothing), Some (1, PMaybe Nothing, PMaybe (Some' (PInt 2)), PNone))
   \<and> do Maybe (counting both) 3 (PMaybe Nothing, PMaybe (Some' (PInt 2)))
     = Some (Inr (PMaybe Nothing),
         Some ((1, PMaybe Nothing, PMaybe (Some' (PInt 2)), PNone), Suc 0))"
proof -
  have g: "start both (PMaybe Nothing, PMaybe (Some' (PInt 2)))
     = Generator (0, PMaybe Nothing, PMaybe (Some' (PInt 2)), PNone)"
    by (simp add: both_def)
  have h: "drive (resume both) 0 PNone (0, PMaybe Nothing, PMaybe (Some' (PInt 2)), PNone)
     = Some (Inr (PMaybe Nothing), (1, PMaybe Nothing, PMaybe (Some' (PInt 2)), PNone))"
    by (simp add: both_def)
  have sc: "short_circuit (PMaybe Nothing :: string pyval)"
    by (simp add: short_circuit_def)
  show ?thesis
    using g h sc do_short_circuit
      [where f = both and n = 0 and fuel = 3 and M = Maybe
         and args = "(PMaybe Nothing, PMaybe (Some' (PInt 2)))"
         and si = "(0, PMaybe Nothing, PMaybe (Some' (PInt 2)), PNone)"
         and m = "PMaybe Nothing"
         and s' = "(1, PMaybe Nothing, PMaybe (Some' (PInt 2)), PNone)"]
    by simp
qed

text \<open>
  C6, as the code has it. If the program, after any number of steps that yielded a
  container in its success state, ends without calling \<^verbatim>\<open>mreturn\<close>, the generator
  raising \<^verbatim>\<open>StopIteration\<close> with the value \<open>r\<close>, then \<open>do M f\<close> returns \<open>r\<close> as it
  is, not wrapped by \<open>unit M\<close>, given a recursion budget larger than the number of those
  steps. The value \<open>r\<close> is that of the program's \<^verbatim>\<open>return\<close> statement.
\<close>

theorem do_runs_to_completion:
  "start f args = Generator si
   \<and> drive (resume f) n PNone si = Some (Inl (StopIteration r), s') \<and> n < fuel
   \<longrightarrow> do M f fuel args = Some (Inr r, Some s')"
proof
  assume "start f args = Generator si
   \<and> drive (resume f) n PNone si = Some (Inl (StopIteration r), s') \<and> n < fuel"
  then have g: "start f args = Generator si"
    and d: "drive (resume f) n PNone si = Some (Inl (StopIteration r), s')"
    and lt: "n < fuel"
    by simp_all
  show "do M f fuel args = Some (Inr r, Some s')"
    by (rule do_Generator [OF g send_return [OF d lt]])
qed

theorem do_runs_to_completion_witness:
  "start wrapped (PMaybe (Some' (PInt 7))) = Generator (0, PMaybe (Some' (PInt 7)))
   \<and> drive (resume wrapped) 1 PNone (0, PMaybe (Some' (PInt 7)))
     = Some (Inl (StopIteration (PMaybe (Some' (PDict [(''got'', PInt 7)])))),
         (2, PMaybe (Some' (PInt 7))))
   \<and> (1::nat) < 2
   \<and> do Maybe wrapped 2 (PMaybe (Some' (PInt 7)))
     = Some (Inr (PMaybe (Some' (PDict [(''got'', PInt 7)]))), Some (2, PMaybe (Some' (PInt 7))))"
proof -
  have g: "start wrapped (PMaybe (Some' (PInt 7))) = Generator (0, PMaybe (Some' (PInt 7)))"
    by (simp add: wrapped_def)
  have h: "drive (resume wrapped) 1 PNone (0, PMaybe (Some' (PInt 7)))
     = Some (Inl (StopIteration (PMaybe (Some' (PDict [(''got'', PInt 7)])))),
         (2, PMaybe (Some' (PInt 7))))"
    by (simp add: wrapped_def payload_def)
  show ?thesis
    using g h do_runs_to_completion
      [where f = wrapped and n = 1 and fuel = 2 and M = Maybe
         and args = "PMaybe (Some' (PInt 7))"
         and si = "(0, PMaybe (Some' (PInt 7)))"
         and r = "PMaybe (Some' (PDict [(''got'', PInt 7)]))"
         and s' = "(2, PMaybe (Some' (PInt 7)))"]
    by simp
qed

text \<open>
  C6 as stated fails for a program that ends without a \<^verbatim>\<open>return\<close> statement: the
  last container expression that \<open>falls_off\<close> evaluates is the \<open>Some 7\<close> it yields, it
  runs to completion without \<^verbatim>\<open>mreturn\<close>, and \<open>do Maybe falls_off\<close> returns
  \<^verbatim>\<open>None\<close>.
\<close>

theorem do_falls_off_counterexample:
  "drive (resume falls_off) 0 PNone (0, PMaybe (Some' (PInt 7)))
     = Some (Inr (PMaybe (Some' (PInt 7))), (1, PMaybe (Some' (PInt 7))))
   \<and> drive (resume falls_off) 1 PNone (0, PMaybe (Some' (PInt 7)))
     = Some (Inl (StopIteration PNone), (2, PMaybe (Some' (PInt 7))))
   \<and> do Maybe falls_off 2 (PMaybe (Some' (PInt 7)))
     = Some (Inr PNone, Some (2, PMaybe (Some' (PInt 7))))
   \<and> (PNone :: string pyval) \<noteq> PMaybe (Some' (PInt 7))"
  by (simp add: do_def falls_off_def payload_def flatmap_def numeral_2_eq_2)

end
